theory Spec2Isabelle
  imports Main "HOL-Library.Word" "HOL-Library.Multiset"
begin

section \<open>Data model of \<^verbatim>\<open>password.go\<close>\<close>

text \<open>
  Go's \<^verbatim>\<open>uint\<close> is taken at 64 bits (the width on every 64-bit platform): addition and
  subtraction wrap around. A \<^verbatim>\<open>rune\<close> is an \<^verbatim>\<open>int32\<close>. A slice is the list of its
  elements; its length is a Go \<^verbatim>\<open>int\<close>, so no slice is longer than \<open>maxInt\<close>, and
  \<^verbatim>\<open>make\<close> and \<^verbatim>\<open>append\<close> panic when asked for more. (The runtime gives up earlier, when
  memory runs out; the model lets every allocation up to \<open>maxInt\<close> succeed, and the statements
  below rely only on the fact that nothing longer exists.) The slices the functions build are
  fresh, and no slice is written through two names, so values stand for them.
\<close>

type_synonym uint = "64 word"
type_synonym rune = "32 word"

definition maxInt :: nat where
  "maxInt = 2 ^ 63 - 1"

text \<open>
  Run-time panics of the Go runtime, and of a randomness provider that panics itself
  (as the default one does on a bound that is not positive).
\<close>

datatype panic = IndexOutOfRange | LenOutOfRange | ProviderPanic

text \<open>
  The two error values of the package, an error returned by the randomness provider (with
  the provider's own payload), and a panic, which unwinds through every caller.
\<close>

datatype 'e failure = InvalidLengthErr | NoCharactersErr | ProviderErr 'e | Panic panic

text \<open>
  The \<^verbatim>\<open>Random\<close> interface: \<^verbatim>\<open>Get(max uint) (uint, error)\<close>. An implementation may keep
  state of its own (an entropy source, a counter in a test), so it is a function of that
  state; it returns a number, returns an error, or panics.
\<close>

datatype 'e reply = Value uint | Failed 'e | Panics

type_synonym ('s, 'e) Random = "'s \<Rightarrow> uint \<Rightarrow> 'e reply \<times> 's"

record charSet =
  set_cs :: "rune list"
  min_cs :: uint

record ('s, 'e) generator =
  charsets :: "charSet list"
  min_g :: uint
  num :: uint
  random :: "('s, 'e) Random"

text \<open>
  The world a call runs in: the generator object behind the receiver pointer
  \<^verbatim>\<open>g *generator\<close>, the state of the randomness provider, and (ghost state, not in the
  source) the log of the calls made to the provider, each with its bound and its reply.
\<close>

record ('s, 'e) world =
  gen :: "('s, 'e) generator"
  prov :: 's
  calls :: "(uint \<times> 'e reply) list"

type_synonym ('s, 'e) Options = "('s, 'e) generator \<Rightarrow> ('s, 'e) generator"

section \<open>Slices\<close>

text \<open>\<^verbatim>\<open>make([]rune, n)\<close>: \<open>n\<close> zero runes, or a panic when \<open>n\<close> is out of range.\<close>

definition make_runes :: "uint \<Rightarrow> 'e failure + rune list" where
  "make_runes n =
     (if unat n \<le> maxInt then Inr (replicate (unat n) 0) else Inl (Panic LenOutOfRange))"

text \<open>\<^verbatim>\<open>make([]rune, 0, n)\<close>: the empty slice of capacity \<open>n\<close>.\<close>

definition make_runes_cap :: "uint \<Rightarrow> 'e failure + rune list" where
  "make_runes_cap n =
     (if unat n \<le> maxInt then Inr [] else Inl (Panic LenOutOfRange))"

text \<open>\<^verbatim>\<open>append(xs, ys...)\<close>.\<close>

definition append_runes :: "rune list \<Rightarrow> rune list \<Rightarrow> 'e failure + rune list" where
  "append_runes xs ys =
     (if length xs + length ys \<le> maxInt then Inr (xs @ ys) else Inl (Panic LenOutOfRange))"

section \<open>The randomness provider\<close>

text \<open>
  One call \<^verbatim>\<open>r.Get(b)\<close>: the provider's state advances and the call is logged. An error
  the provider returns reaches the caller as \<open>ProviderErr\<close>.
\<close>

definition Get ::
  "('s, 'e) Random \<Rightarrow> uint \<Rightarrow> ('s, 'e) world \<Rightarrow> ('e failure + uint) \<times> ('s, 'e) world" where
  "Get r b w =
     (case r (prov w) b of
        (Value v, s') \<Rightarrow> (Inr v, w\<lparr>prov := s', calls := calls w @ [(b, Value v)]\<rparr>)
      | (Failed e, s') \<Rightarrow> (Inl (ProviderErr e), w\<lparr>prov := s', calls := calls w @ [(b, Failed e)]\<rparr>)
      | (Panics, s') \<Rightarrow> (Inl (Panic ProviderPanic), w\<lparr>prov := s', calls := calls w @ [(b, Panics)]\<rparr>))"

text \<open>
  The default provider \<^verbatim>\<open>random.Get\<close>. \<open>rand_Int\<close> stands for the standard library's
  \<^verbatim>\<open>rand.Int(rand.Reader, b)\<close>, which is not part of the repository: it is a parameter,
  asked only for a positive \<open>b\<close>, since \<^verbatim>\<open>rand.Int\<close> panics when \<open>b \<le> 0\<close>. The bound is
  converted with \<^verbatim>\<open>int64(max)\<close> and the result with \<^verbatim>\<open>uint(nInt.Int64())\<close>.
  (The parameters the source calls \<^verbatim>\<open>min\<close>, \<^verbatim>\<open>max\<close> and \<^verbatim>\<open>set\<close> are \<open>mn\<close>, \<open>mx\<close> and
  \<open>cs\<close> throughout, those names being constants of the logic.)
\<close>

definition random_Get :: "('s \<Rightarrow> int \<Rightarrow> ('e + int) \<times> 's) \<Rightarrow> ('s, 'e) Random" where
  "random_Get rand_Int s mx =
     (let b = sint mx in
      if b \<le> 0 then (Panics, s)
      else (case rand_Int s b of
              (Inl err, s') \<Rightarrow> (Failed err, s')
            | (Inr nInt, s') \<Rightarrow> (Value (word_of_int nInt), s')))"

section \<open>Building a generator\<close>

definition WithRandom :: "('s, 'e) Random \<Rightarrow> ('s, 'e) Options" where
  "WithRandom r g = g\<lparr>random := r\<rparr>"

definition WithCharacters :: "rune list \<Rightarrow> uint \<Rightarrow> ('s, 'e) Options" where
  "WithCharacters cs mn g =
     g\<lparr>charsets := charsets g @ [\<lparr>set_cs = cs, min_cs = mn\<rparr>],
       min_g := min_g g + mn,
       num := num g + of_nat (length cs)\<rparr>"

definition NewGenerator ::
  "('s \<Rightarrow> int \<Rightarrow> ('e + int) \<times> 's) \<Rightarrow> ('s, 'e) Options list \<Rightarrow> 'e failure + ('s, 'e) generator" where
  "NewGenerator rand_Int opts =
     (let g = foldl (\<lambda>g o'. o' g)
                \<lparr>charsets = [], min_g = 0, num = 0, random = random_Get rand_Int\<rparr> opts
      in if num g = 0 then Inl NoCharactersErr else Inr g)"

text \<open>
  The two directives a caller can write, as data, so that a statement can range over
  every sequence of them.
\<close>

datatype ('s, 'e) directive =
  WithCharacterSet "rune list" uint
| WithRandomnessProvider "('s, 'e) Random"

fun option_of :: "('s, 'e) directive \<Rightarrow> ('s, 'e) Options" where
  "option_of (WithCharacterSet cs mn) = WithCharacters cs mn"
| "option_of (WithRandomnessProvider r) = WithRandom r"

section \<open>Length selection\<close>

definition g_getRandomLength ::
  "uint \<Rightarrow> uint \<Rightarrow> ('s, 'e) world \<Rightarrow> ('e failure + uint) \<times> ('s, 'e) world" where
  "g_getRandomLength mn mx w =
     (if mx < mn \<or> mx < min_g (gen w) then (Inl InvalidLengthErr, w)
      else
        let mn' = (if mn < min_g (gen w) then min_g (gen w) else mn) in
        (case Get (random (gen w)) (mx - mn' + 1) w of
           (Inl err, w') \<Rightarrow> (Inl err, w')
         | (Inr len, w') \<Rightarrow> (Inr (len + mn'), w')))"

section \<open>Character selection\<close>

text \<open>
  The free function \<^verbatim>\<open>getRandomChars(r, from, n)\<close>. Its loop
  \<^verbatim>\<open>for i := uint(0); i < n; i++\<close> draws an index and stores \<^verbatim>\<open>from[k]\<close> at \<^verbatim>\<open>chars[i]\<close>;
  an index outside a slice panics.
\<close>

function getRandomChars_loop ::
  "('s, 'e) Random \<Rightarrow> rune list \<Rightarrow> uint \<Rightarrow> uint \<Rightarrow> uint \<Rightarrow> rune list \<Rightarrow> ('s, 'e) world
     \<Rightarrow> ('e failure + rune list) \<times> ('s, 'e) world" where
  "getRandomChars_loop r from l n i chars w =
     (if i < n then
        (case Get r l w of
           (Inl err, w') \<Rightarrow> (Inl err, w')
         | (Inr k, w') \<Rightarrow>
             if unat k < length from \<and> unat i < length chars
             then getRandomChars_loop r from l n (i + 1) (chars[unat i := from ! unat k]) w'
             else (Inl (Panic IndexOutOfRange), w'))
      else (Inr chars, w))"
  by pat_completeness auto
termination
proof (relation "measure (\<lambda>(r, from, l, n, i, chars, w). unat n - unat i)", goal_cases)
  case 1
  show ?case by simp
next
  case (2 r "from" l n i chars w x y b)
  from \<open>i < n\<close> have lt: "unat i < unat n" by (simp add: word_less_nat_alt)
  have "unat n < 2 ^ 64" using unsigned_less [of n] by simp
  with lt have "unat i + 1 < 2 ^ 64" by linarith
  then have "unat (i + 1) = unat i + 1" by (simp add: unat_plus_if')
  with lt show ?case by simp
qed

definition getRandomChars ::
  "('s, 'e) Random \<Rightarrow> rune list \<Rightarrow> uint \<Rightarrow> ('s, 'e) world
     \<Rightarrow> ('e failure + rune list) \<times> ('s, 'e) world" where
  "getRandomChars r from n w =
     (case make_runes n of
        Inl err \<Rightarrow> (Inl err, w)
      | Inr chars \<Rightarrow> getRandomChars_loop r from (of_nat (length from)) n 0 chars w)"

text \<open>
  The method \<^verbatim>\<open>g.getRandomChars(n)\<close>, loop by loop. First the minimum of every set, in
  registration order.
\<close>

fun g_getRandomChars_minimums ::
  "charSet list \<Rightarrow> rune list \<Rightarrow> ('s, 'e) world \<Rightarrow> ('e failure + rune list) \<times> ('s, 'e) world" where
  "g_getRandomChars_minimums [] chars w = (Inr chars, w)"
| "g_getRandomChars_minimums (c # cs) chars w =
     (case getRandomChars (random (gen w)) (set_cs c) (min_cs c) w of
        (Inl err, w') \<Rightarrow> (Inl err, w')
      | (Inr newChars, w') \<Rightarrow>
          (case append_runes chars newChars of
             Inl err \<Rightarrow> (Inl err, w')
           | Inr chars' \<Rightarrow> g_getRandomChars_minimums cs chars' w'))"

text \<open>
  The inner loop of the second phase: walk the sets, subtracting each size from \<open>k\<close>,
  and append the character where \<open>k\<close> falls; append nothing when it falls in no set.
\<close>

fun g_getRandomChars_pick :: "charSet list \<Rightarrow> uint \<Rightarrow> rune list \<Rightarrow> 'e failure + rune list" where
  "g_getRandomChars_pick [] k chars = Inr chars"
| "g_getRandomChars_pick (c # cs) k chars =
     (if k < of_nat (length (set_cs c))
      then (if unat k < length (set_cs c) then append_runes chars [set_cs c ! unat k]
            else Inl (Panic IndexOutOfRange))
      else g_getRandomChars_pick cs (k - of_nat (length (set_cs c))) chars)"

text \<open>The second phase: \<^verbatim>\<open>for i := uint(0); i < n-g.min; i++\<close>.\<close>

function g_getRandomChars_fill ::
  "uint \<Rightarrow> uint \<Rightarrow> rune list \<Rightarrow> ('s, 'e) world \<Rightarrow> ('e failure + rune list) \<times> ('s, 'e) world" where
  "g_getRandomChars_fill n i chars w =
     (if i < n - min_g (gen w) then
        (case Get (random (gen w)) (num (gen w)) w of
           (Inl err, w') \<Rightarrow> (Inl err, w')
         | (Inr k, w') \<Rightarrow>
             (case g_getRandomChars_pick (charsets (gen w')) k chars of
                Inl err \<Rightarrow> (Inl err, w')
              | Inr chars' \<Rightarrow> g_getRandomChars_fill n (i + 1) chars' w'))
      else (Inr chars, w))"
  by pat_completeness auto
termination
proof (relation "measure (\<lambda>(n, i, chars, w). unat (n - min_g (gen w)) - unat i)", goal_cases)
  case 1
  show ?case by simp
next
  case (2 n i chars w x y b x2)
  from \<open>(x, y) = Get (random (gen w)) (num (gen w)) w\<close> have g: "gen y = gen w"
    by (auto simp: Get_def split: prod.splits reply.splits)
  let ?m = "n - min_g (gen w)"
  from \<open>i < ?m\<close> have lt: "unat i < unat ?m" by (simp add: word_less_nat_alt)
  have "unat ?m < 2 ^ 64" using unsigned_less [of ?m] by simp
  with lt have "unat i + 1 < 2 ^ 64" by linarith
  then have "unat (i + 1) = unat i + 1" by (simp add: unat_plus_if')
  with lt g show ?case by simp
qed

definition g_getRandomChars ::
  "uint \<Rightarrow> ('s, 'e) world \<Rightarrow> ('e failure + rune list) \<times> ('s, 'e) world" where
  "g_getRandomChars n w =
     (case make_runes_cap n of
        Inl err \<Rightarrow> (Inl err, w)
      | Inr chars \<Rightarrow>
          (case g_getRandomChars_minimums (charsets (gen w)) chars w of
             (Inl err, w') \<Rightarrow> (Inl err, w')
           | (Inr chars', w') \<Rightarrow> g_getRandomChars_fill n 0 chars' w'))"

section \<open>Shuffle\<close>

text \<open>
  \<^verbatim>\<open>shuffle(r, chars)\<close> works on the caller's slice and returns only an error, so the model
  returns the error (\<open>None\<close> for \<^verbatim>\<open>nil\<close>) together with the slice as the call leaves it.
  The loop is \<^verbatim>\<open>for i := uint(0); i < n-1; i++\<close> with \<open>n\<close> the length as a \<^verbatim>\<open>uint\<close>; the
  subtraction \<open>n - 1\<close> is a \<^verbatim>\<open>uint\<close> subtraction, and \<open>i + k\<close> a \<^verbatim>\<open>uint\<close> addition.
\<close>

function shuffle_loop ::
  "('s, 'e) Random \<Rightarrow> uint \<Rightarrow> uint \<Rightarrow> rune list \<Rightarrow> ('s, 'e) world
     \<Rightarrow> 'e failure option \<times> rune list \<times> ('s, 'e) world" where
  "shuffle_loop r n i chars w =
     (if i < n - 1 then
        (case Get r (n - i) w of
           (Inl err, w') \<Rightarrow> (Some err, chars, w')
         | (Inr k, w') \<Rightarrow>
             if unat i < length chars \<and> unat (i + k) < length chars
             then shuffle_loop r n (i + 1)
                    (chars[unat i := chars ! unat (i + k), unat (i + k) := chars ! unat i]) w'
             else (Some (Panic IndexOutOfRange), chars, w'))
      else (None, chars, w))"
  by pat_completeness auto
termination
proof (relation "measure (\<lambda>(r, n, i, chars, w). unat (n - 1) - unat i)", goal_cases)
  case 1
  show ?case by simp
next
  case (2 r n i chars w x y b)
  from \<open>i < n - 1\<close> have lt: "unat i < unat (n - 1)" by (simp add: word_less_nat_alt)
  have "unat (n - 1) < 2 ^ 64" using unsigned_less [of "n - 1"] by simp
  with lt have "unat i + 1 < 2 ^ 64" by linarith
  then have "unat (i + 1) = unat i + 1" by (simp add: unat_plus_if')
  with lt show ?case by simp
qed

definition shuffle ::
  "('s, 'e) Random \<Rightarrow> rune list \<Rightarrow> ('s, 'e) world
     \<Rightarrow> 'e failure option \<times> rune list \<times> ('s, 'e) world" where
  "shuffle r chars w = shuffle_loop r (of_nat (length chars)) 0 chars w"

section \<open>Generate\<close>

definition Generate ::
  "uint \<Rightarrow> uint \<Rightarrow> ('s, 'e) world \<Rightarrow> ('e failure + rune list) \<times> ('s, 'e) world" where
  "Generate mn mx w =
     (case g_getRandomLength mn mx w of
        (Inl err, w1) \<Rightarrow> (Inl err, w1)
      | (Inr len, w1) \<Rightarrow>
          (case g_getRandomChars len w1 of
             (Inl err, w2) \<Rightarrow> (Inl err, w2)
           | (Inr chars, w2) \<Rightarrow>
               (case shuffle (random (gen w2)) chars w2 of
                  (Some err, chars', w3) \<Rightarrow> (Inl err, w3)
                | (None, chars', w3) \<Rightarrow> (Inr chars', w3))))"

text \<open>A sequence of \<^verbatim>\<open>Generate\<close> calls on the same generator, each with its own bounds.\<close>

fun Generate_calls ::
  "(uint \<times> uint) list \<Rightarrow> ('s, 'e) world \<Rightarrow> ('e failure + rune list) list \<times> ('s, 'e) world" where
  "Generate_calls [] w = ([], w)"
| "Generate_calls (c # cs) w =
     (case Generate (fst c) (snd c) w of
        (res, w') \<Rightarrow> (case Generate_calls cs w' of (ress, w'') \<Rightarrow> (res # ress, w'')))"

section \<open>Notions the statements use\<close>

text \<open>
  The contract of \<^verbatim>\<open>Random\<close>: a number the provider returns is below the bound it was
  asked for.
\<close>

definition in_range :: "('s, 'e) Random \<Rightarrow> bool" where
  "in_range r = (\<forall>s b v s'. r s b = (Value v, s') \<longrightarrow> v < b)"

text \<open>
  The shuffle as the specification words it: one pass over the given positions, in order;
  at position \<open>i\<close> draw \<open>k\<close> with bound \<open>length - i\<close> and swap the positions \<open>i\<close> and
  \<open>i + k\<close>, with natural numbers for the positions.
\<close>

fun shuffle_pass ::
  "('s, 'e) Random \<Rightarrow> nat list \<Rightarrow> rune list \<Rightarrow> ('s, 'e) world
     \<Rightarrow> 'e failure option \<times> rune list \<times> ('s, 'e) world" where
  "shuffle_pass r [] chars w = (None, chars, w)"
| "shuffle_pass r (i # is) chars w =
     (case Get r (of_nat (length chars - i)) w of
        (Inl err, w') \<Rightarrow> (Some err, chars, w')
      | (Inr k, w') \<Rightarrow>
          shuffle_pass r is (chars[i := chars ! (i + unat k), i + unat k := chars ! i]) w')"

text \<open>What a reply of the provider means for the caller: nothing, an error, or a panic.\<close>

fun failure_of :: "'e reply \<Rightarrow> 'e failure option" where
  "failure_of (Value v) = None"
| "failure_of (Failed e) = Some (ProviderErr e)"
| "failure_of Panics = Some (Panic ProviderPanic)"

text \<open>The panics of the Go runtime itself.\<close>

fun runtime_panic :: "'e failure \<Rightarrow> bool" where
  "runtime_panic (Panic IndexOutOfRange) = True"
| "runtime_panic (Panic LenOutOfRange) = True"
| "runtime_panic _ = False"

text \<open>The failure in a result, if any.\<close>

fun failed :: "'e failure + 'a \<Rightarrow> 'e failure option" where
  "failed (Inl e) = Some e"
| "failed (Inr x) = None"

text \<open>
  A stretch of the call log is \<open>clean\<close> when every call in it returned a number. It is
  \<open>propagated\<close> into a result \<open>f\<close> when either every call returned a number and \<open>f\<close> is
  success or a panic of the runtime, or the last call is the only one that did not return a
  number and \<open>f\<close> is the failure of that call. \<open>logs f w w'\<close>: from \<open>w\<close> to \<open>w'\<close> the log
  grew by such a stretch.
\<close>

definition clean :: "(uint \<times> 'e reply) list \<Rightarrow> bool" where
  "clean new = list_all (\<lambda>c. failure_of (snd c) = None) new"

definition propagated :: "'e failure option \<Rightarrow> (uint \<times> 'e reply) list \<Rightarrow> bool" where
  "propagated f new =
     (case f of
        None \<Rightarrow> clean new
      | Some e \<Rightarrow>
          (clean new \<and> runtime_panic e)
          \<or> (new \<noteq> [] \<and> clean (butlast new) \<and> failure_of (snd (last new)) = Some e))"

definition logs :: "'e failure option \<Rightarrow> ('s, 'e) world \<Rightarrow> ('s, 'e) world \<Rightarrow> bool" where
  "logs f w w' = (\<exists>new. calls w' = calls w @ new \<and> propagated f new)"

text \<open>
  The character sets a sequence of directives registers, in order, and the pool: the sets
  laid end to end.
\<close>

fun registered :: "('s, 'e) directive list \<Rightarrow> charSet list" where
  "registered [] = []"
| "registered (WithCharacterSet cs mn # ds) = \<lparr>set_cs = cs, min_cs = mn\<rparr> # registered ds"
| "registered (WithRandomnessProvider r # ds) = registered ds"

definition pool :: "charSet list \<Rightarrow> rune list" where
  "pool cs = concat (map set_cs cs)"

section \<open>Fixtures for the worked examples\<close>

text \<open>
  A provider that replays a script: its state is the list of replies still to give, and
  it panics once the script is exhausted. The bound is ignored, as a test double may.
\<close>

definition scripted :: "('e reply list, 'e) Random" where
  "scripted s b = (case s of [] \<Rightarrow> (Panics, []) | x # xs \<Rightarrow> (x, xs))"

text \<open>
  A provider that honours the contract of \<^verbatim>\<open>Random\<close>: a counter reduced below the bound,
  and a panic on the bound 0, for which no number is below the bound.
\<close>

definition counting :: "(nat, 'e) Random" where
  "counting s b = (if b = 0 then (Panics, s) else (Value (of_nat s mod b), Suc s))"

text \<open>An entropy source for \<open>random_Get\<close> that always draws 0.\<close>

definition zero_Int :: "'s \<Rightarrow> int \<Rightarrow> ('e + int) \<times> 's" where
  "zero_Int s b = (Inr 0, s)"

text \<open>
  \<open>2 ^ 32\<close> directives, each registering the same set of \<open>2 ^ 32\<close> characters: a pool of
  \<open>2 ^ 64\<close> characters.
\<close>

definition huge_directives :: "(unit, unit) directive list" where
  "huge_directives = replicate (2 ^ 32) (WithCharacterSet (replicate (2 ^ 32) 97) 0)"

text \<open>
  The generator of two sets, \<^verbatim>\<open>"ab"\<close> with minimum 1 and \<^verbatim>\<open>"012"\<close> with minimum 2, and
  a provider \<open>r\<close>.
\<close>

definition demo_generator :: "('s, 'e) Random \<Rightarrow> ('s, 'e) generator" where
  "demo_generator r =
     \<lparr>charsets = [\<lparr>set_cs = [97, 98], min_cs = 1\<rparr>, \<lparr>set_cs = [48, 49, 50], min_cs = 2\<rparr>],
      min_g = 3, num = 5, random = r\<rparr>"

text \<open>A world with that generator, the scripted provider and an empty log.\<close>

definition demo_world :: "unit reply list \<Rightarrow> (unit reply list, unit) world" where
  "demo_world script = \<lparr>gen = demo_generator scripted, prov = script, calls = []\<rparr>"

text \<open>The same two sets with the provider \<open>counting\<close>, and a world that starts its counter at \<open>s\<close>.\<close>

definition counting_directives :: "(nat, unit) directive list" where
  "counting_directives =
     [WithCharacterSet [97, 98] 1, WithCharacterSet [48, 49, 50] 2, WithRandomnessProvider counting]"

definition counting_world :: "nat \<Rightarrow> (nat, unit) world" where
  "counting_world s = \<lparr>gen = demo_generator counting, prov = s, calls = []\<rparr>"




text \<open>
  The generator \<^verbatim>\<open>NewGenerator(WithCharacters([]rune("a"), 0))\<close> builds: one set, no
  minimum, the default provider.
\<close>

definition lone_generator :: "(unit, unit) generator" where
  "lone_generator =
     \<lparr>charsets = [\<lparr>set_cs = [97], min_cs = 0\<rparr>], min_g = 0, num = 1,
      random = random_Get zero_Int\<rparr>"

declare getRandomChars_loop.simps [simp del]
declare g_getRandomChars_fill.simps [simp del]
declare shuffle_loop.simps [simp del]

section \<open>Running the model on concrete inputs\<close>

lemma replicate_numeral: "replicate (numeral k) x = x # replicate (pred_numeral k) x"
  by (simp add: numeral_eq_Suc)

lemma list_update_numeral: "(x # xs)[numeral k := y] = x # xs[pred_numeral k := y]"
  by (simp add: numeral_eq_Suc)

lemmas run_simps =
  Generate_def g_getRandomLength_def g_getRandomChars_def getRandomChars_def shuffle_def
  getRandomChars_loop.simps g_getRandomChars_fill.simps shuffle_loop.simps
  Get_def make_runes_def make_runes_cap_def append_runes_def maxInt_def
  scripted_def demo_world_def demo_generator_def replicate_numeral list_update_numeral

section \<open>The generator object is only read\<close>

lemma Get_gen [simp]: "gen (snd (Get r b w)) = gen w"
  by (auto simp: Get_def split: prod.splits reply.splits)

lemma Get_genD: "Get r b w = (x, w') \<Longrightarrow> gen w' = gen w"
  using Get_gen [of r b w] by simp

lemma getRandomChars_loop_gen [simp]:
  "gen (snd (getRandomChars_loop r from l n i chars w)) = gen w"
proof (induction r "from" l n i chars w rule: getRandomChars_loop.induct)
  case (1 r "from" l n i chars w)
  show ?case
    by (subst getRandomChars_loop.simps)
       (auto split: prod.splits sum.splits dest: Get_genD simp: "1.IH")
qed

lemma getRandomChars_gen [simp]: "gen (snd (getRandomChars r from n w)) = gen w"
  by (auto simp: getRandomChars_def split: sum.splits)

lemma getRandomChars_genD: "getRandomChars r from n w = (x, w') \<Longrightarrow> gen w' = gen w"
  using getRandomChars_gen [of r "from" n w] by simp

lemma g_getRandomChars_minimums_gen [simp]:
  "gen (snd (g_getRandomChars_minimums cs chars w)) = gen w"
  by (induction cs arbitrary: chars w)
     (auto split: prod.splits sum.splits dest: getRandomChars_genD)

lemma g_getRandomChars_minimums_genD:
  "g_getRandomChars_minimums cs chars w = (x, w') \<Longrightarrow> gen w' = gen w"
  using g_getRandomChars_minimums_gen [of cs chars w] by simp

lemma g_getRandomChars_fill_gen [simp]:
  "gen (snd (g_getRandomChars_fill n i chars w)) = gen w"
proof (induction n i chars w rule: g_getRandomChars_fill.induct)
  case (1 n i chars w)
  show ?case
    by (subst g_getRandomChars_fill.simps)
       (auto split: prod.splits sum.splits dest: Get_genD simp: "1.IH")
qed

lemma g_getRandomChars_fill_genD:
  "g_getRandomChars_fill n i chars w = (x, w') \<Longrightarrow> gen w' = gen w"
  using g_getRandomChars_fill_gen [of n i chars w] by simp

lemma g_getRandomChars_gen [simp]: "gen (snd (g_getRandomChars n w)) = gen w"
  by (auto simp: g_getRandomChars_def split: sum.splits prod.splits
      dest: g_getRandomChars_minimums_genD)

lemma g_getRandomChars_genD: "g_getRandomChars n w = (x, w') \<Longrightarrow> gen w' = gen w"
  using g_getRandomChars_gen [of n w] by simp

lemma shuffle_loop_gen [simp]:
  "gen (snd (snd (shuffle_loop r n i chars w))) = gen w"
proof (induction r n i chars w rule: shuffle_loop.induct)
  case (1 r n i chars w)
  show ?case
    by (subst shuffle_loop.simps)
       (auto split: prod.splits sum.splits dest: Get_genD simp: "1.IH")
qed

lemma shuffle_genD: "shuffle r chars w = (x, chars', w') \<Longrightarrow> gen w' = gen w"
  using shuffle_loop_gen [of r "of_nat (length chars)" 0 chars w] by (simp add: shuffle_def)

lemma g_getRandomLength_gen [simp]: "gen (snd (g_getRandomLength mn mx w)) = gen w"
  by (auto simp: g_getRandomLength_def Let_def split: sum.splits prod.splits dest: Get_genD)

lemma g_getRandomLength_genD: "g_getRandomLength mn mx w = (x, w') \<Longrightarrow> gen w' = gen w"
  using g_getRandomLength_gen [of mn mx w] by simp

lemma Generate_gen [simp]: "gen (snd (Generate mn mx w)) = gen w"
  by (auto simp: Generate_def split: sum.splits prod.splits option.splits
      dest!: g_getRandomLength_genD g_getRandomChars_genD shuffle_genD)

lemma Generate_calls_gen [simp]: "gen (snd (Generate_calls cs w)) = gen w"
proof (induction cs arbitrary: w)
  case Nil
  show ?case by simp
next
  case (Cons c cs)
  obtain res w' where G: "Generate (fst c) (snd c) w = (res, w')"
    by (cases "Generate (fst c) (snd c) w")
  then have "gen w' = gen w" using Generate_gen [of "fst c" "snd c" w] by simp
  with G Cons.IH [of w'] show ?case by (auto split: prod.splits)
qed

text \<open>
  C9. A \<^verbatim>\<open>Generate\<close> call, whatever it returns, leaves the generator as it found it, and
  so does every sequence of calls and every prefix of one: the list of character sets
  (each set's characters and minimum), the sum of the minimums and the pool size are the
  same before and after.
\<close>

theorem Generate_leaves_configuration:
  "gen (snd (Generate mn mx w)) = gen w
   \<and> gen (snd (Generate_calls (take k cs) w)) = gen w
   \<and> charsets (gen (snd (Generate_calls cs w))) = charsets (gen w)
   \<and> min_g (gen (snd (Generate_calls cs w))) = min_g (gen w)
   \<and> num (gen (snd (Generate_calls cs w))) = num (gen w)"
  by simp

theorem Generate_leaves_configuration_witness:
  "charsets (gen (snd (Generate_calls [(2, 5), (9, 3), (0, 4)]
       (demo_world [Value 1, Value 1, Value 0, Value 2, Failed ()])))) =
     [\<lparr>set_cs = [97, 98], min_cs = 1\<rparr>, \<lparr>set_cs = [48, 49, 50], min_cs = 2\<rparr>]
   \<and> min_g (gen (snd (Generate_calls [(2, 5), (9, 3), (0, 4)]
       (demo_world [Value 1, Value 1, Value 0, Value 2, Failed ()])))) = 3
   \<and> num (gen (snd (Generate_calls [(2, 5), (9, 3), (0, 4)]
       (demo_world [Value 1, Value 1, Value 0, Value 2, Failed ()])))) = 5"
  using Generate_leaves_configuration [of 0 0
      "demo_world [Value 1, Value 1, Value 0, Value 2, Failed ()]" 0 "[(2, 5), (9, 3), (0, 4)]"]
  by (simp add: demo_world_def demo_generator_def)

section \<open>Shuffle: the empty slice, one element, and permutation\<close>

lemma shuffle_Nil:
  "shuffle r [] w =
     (case Get r 0 w of
        (Inl e0, w') \<Rightarrow> (Some e0, [], w')
      | (Inr k, w') \<Rightarrow> (Some (Panic IndexOutOfRange), [], w'))"
proof -
  have "(0::uint) < - 1" by (simp add: word_gt_0)
  then show ?thesis
    by (simp add: shuffle_def shuffle_loop.simps split: prod.splits sum.splits)
qed

lemma shuffle_single: "shuffle r [x] w = (None, [x], w)"
  by (simp add: shuffle_def shuffle_loop.simps)

lemma shuffle_loop_mset [simp]:
  "mset (fst (snd (shuffle_loop r n i chars w))) = mset chars"
proof (induction r n i chars w rule: shuffle_loop.induct)
  case (1 r n i chars w)
  show ?case
    by (subst shuffle_loop.simps)
       (auto split: prod.splits sum.splits simp: "1.IH" mset_swap)
qed

lemma shuffle_mset [simp]: "mset (fst (snd (shuffle r chars w))) = mset chars"
  by (simp add: shuffle_def)

section \<open>Shuffle on a non-empty slice is the pass of the specification\<close>

lemma Get_in_range: "in_range r \<Longrightarrow> Get r b w = (Inr k, w') \<Longrightarrow> k < b"
  by (auto simp: Get_def in_range_def split: prod.splits reply.splits)

lemma unat_of_nat64: "N < 2 ^ 64 \<Longrightarrow> unat (of_nat N :: uint) = N"
  by (simp add: unat_of_nat)

lemma shuffle_loop_pass:
  shows "in_range r \<Longrightarrow> length chars = N \<Longrightarrow> 0 < N \<Longrightarrow> N < 2 ^ 64 \<Longrightarrow> n = of_nat N \<Longrightarrow> unat i \<le> N - 1
    \<Longrightarrow> shuffle_loop r n i chars w = shuffle_pass r [unat i..<N - 1] chars w"
proof (induction r n i chars w rule: shuffle_loop.induct)
  case (1 r n i chars w)
  note r = \<open>in_range r\<close>
  have un: "unat n = N" using "1.prems" by (simp add: unat_of_nat64)
  then have n0: "n \<noteq> 0" using \<open>0 < N\<close> by auto
  have un1: "unat (n - 1) = N - 1" using n0 un by (simp add: unat_minus_one)
  show ?case
  proof (cases "i < n - 1")
    case False
    then have "unat i = N - 1" using un1 "1.prems" by (simp add: word_less_nat_alt)
    with False show ?thesis by (subst shuffle_loop.simps) simp
  next
    case True
    then have lt: "unat i < N - 1" using un1 by (simp add: word_less_nat_alt)
    then have upt: "[unat i..<N - 1] = unat i # [Suc (unat i)..<N - 1]"
      by (simp add: upt_conv_Cons)
    have "unat i \<le> unat n" using lt un by simp
    then have "i \<le> n" by (simp add: word_le_nat_alt)
    then have uni: "unat (n - i) = N - unat i" using un by (simp add: unat_sub)
    have bnd: "of_nat (N - unat i) = n - i"
    proof -
      have "of_nat (N - unat i) = (of_nat (unat (n - i)) :: uint)" using uni by simp
      then show ?thesis by simp
    qed
    have "unat i + 1 < 2 ^ 64" using lt \<open>N < 2 ^ 64\<close> by linarith
    then have ui1: "unat (i + 1) = Suc (unat i)" by (simp add: unat_plus_if')
    obtain x w' where G: "Get r (n - i) w = (x, w')" by (cases "Get r (n - i) w")
    show ?thesis
    proof (cases x)
      case (Inl e)
      with True G upt bnd "1.prems" show ?thesis by (subst shuffle_loop.simps) simp
    next
      case (Inr k)
      with G r have "k < n - i" by (auto dest: Get_in_range)
      then have "unat k < N - unat i" using uni by (simp add: word_less_nat_alt)
      then have sum: "unat i + unat k < N" by linarith
      then have "unat i + unat k < 2 ^ 64" using \<open>N < 2 ^ 64\<close> by linarith
      then have uik: "unat (i + k) = unat i + unat k" by (simp add: unat_plus_if')
      have c: "unat i < length chars \<and> unat (i + k) < length chars"
        using sum uik "1.prems" by simp
      let ?chars = "chars[unat i := chars ! unat (i + k), unat (i + k) := chars ! unat i]"
      have "shuffle_loop r n (i + 1) ?chars w' = shuffle_pass r [unat (i + 1)..<N - 1] ?chars w'"
        using "1.IH" [OF True G [symmetric] Inr c] "1.prems" lt ui1 r by simp
      with True G Inr c upt bnd uik ui1 "1.prems" show ?thesis
        by (subst shuffle_loop.simps) simp
    qed
  qed
qed

lemma shuffle_is_pass:
  assumes "in_range r" "chars \<noteq> []" "length chars \<le> maxInt"
  shows "shuffle r chars w = shuffle_pass r [0..<length chars - 1] chars w"
proof -
  have "length chars < 2 ^ 64" using assms(3) by (simp add: maxInt_def)
  with shuffle_loop_pass [OF assms(1), of chars "length chars" "of_nat (length chars)" 0 w] assms(2)
  show ?thesis by (simp add: shuffle_def)
qed

section \<open>The call log of every function\<close>

lemma clean_append [simp]: "clean (xs @ ys) \<longleftrightarrow> clean xs \<and> clean ys"
  by (simp add: clean_def)

lemma clean_Nil [simp]: "clean []"
  by (simp add: clean_def)

lemma propagated_append: "clean xs \<Longrightarrow> propagated f ys \<Longrightarrow> propagated f (xs @ ys)"
  by (auto simp: propagated_def butlast_append split: option.splits)

lemma logs_None_refl [simp]: "logs None w w"
  by (simp add: logs_def propagated_def)

lemma logs_panic_refl: "runtime_panic e \<Longrightarrow> logs (Some e) w w"
  by (simp add: logs_def propagated_def)

lemma logs_trans: "logs None w w1 \<Longrightarrow> logs f w1 w2 \<Longrightarrow> logs f w w2"
  unfolding logs_def
proof (elim exE conjE)
  fix n1 n2
  assume a: "calls w1 = calls w @ n1" "propagated None n1" "calls w2 = calls w1 @ n2" "propagated f n2"
  then have "clean n1" by (simp add: propagated_def)
  with a have "calls w2 = calls w @ (n1 @ n2) \<and> propagated f (n1 @ n2)"
    by (simp add: propagated_append)
  then show "\<exists>new. calls w2 = calls w @ new \<and> propagated f new" by blast
qed

lemma logs_then_panic: "logs None w w1 \<Longrightarrow> runtime_panic e \<Longrightarrow> logs (Some e) w w1"
  using logs_trans [OF _ logs_panic_refl] by blast

lemma Get_logs: "Get r b w = (x, w') \<Longrightarrow> logs (failed x) w w'"
  by (auto simp: Get_def logs_def propagated_def clean_def split: prod.splits reply.splits)

lemma getRandomChars_loop_logs:
  "getRandomChars_loop r from l n i chars w = (x, w') \<Longrightarrow> logs (failed x) w w'"
proof (induction r "from" l n i chars w arbitrary: x w' rule: getRandomChars_loop.induct)
  case (1 r "from" l n i chars w)
  show ?case
  proof (cases "i < n")
    case False
    with "1.prems" show ?thesis by (subst (asm) getRandomChars_loop.simps) auto
  next
    case True
    obtain y w1 where G: "Get r l w = (y, w1)" by (cases "Get r l w")
    note L = Get_logs [OF G]
    show ?thesis
    proof (cases y)
      case (Inl e)
      with True G "1.prems" L show ?thesis by (subst (asm) getRandomChars_loop.simps) auto
    next
      case (Inr k)
      show ?thesis
      proof (cases "unat k < length from \<and> unat i < length chars")
        case c: True
        from True G Inr c "1.prems"
        have "getRandomChars_loop r from l n (i + 1) (chars[unat i := from ! unat k]) w1 = (x, w')"
          by (subst (asm) getRandomChars_loop.simps) simp
        from "1.IH" [OF True G [symmetric] Inr c this] L Inr show ?thesis
          by (auto intro: logs_trans)
      next
        case False
        with True G Inr "1.prems" have "x = Inl (Panic IndexOutOfRange)" "w' = w1"
          by (subst (asm) getRandomChars_loop.simps, simp)+
        with L Inr show ?thesis by (simp add: logs_then_panic)
      qed
    qed
  qed
qed

lemma make_runes_panic: "make_runes n = Inl e \<Longrightarrow> runtime_panic e"
  by (auto simp: make_runes_def split: if_splits)

lemma make_runes_cap_panic: "make_runes_cap n = Inl e \<Longrightarrow> runtime_panic e"
  by (auto simp: make_runes_cap_def split: if_splits)

lemma append_runes_panic: "append_runes xs ys = Inl e \<Longrightarrow> runtime_panic e"
  by (auto simp: append_runes_def split: if_splits)

lemma g_getRandomChars_pick_panic: "g_getRandomChars_pick cs k chars = Inl e \<Longrightarrow> runtime_panic e"
  by (induction cs arbitrary: k) (auto split: if_splits dest: append_runes_panic)

lemma getRandomChars_logs:
  fixes w :: "('s, 'e) world"
  assumes "getRandomChars r from n w = (x, w')"
  shows "logs (failed x) w w'"
proof (cases "make_runes n :: 'e failure + rune list")
  case (Inl e)
  from Inl assms have "x = Inl e" "w' = w" by (auto simp: getRandomChars_def)
  with make_runes_panic [OF Inl] show ?thesis by (simp add: logs_panic_refl)
next
  case (Inr chars)
  with assms show ?thesis by (auto simp: getRandomChars_def dest: getRandomChars_loop_logs)
qed

lemma g_getRandomChars_minimums_logs:
  fixes w :: "('s, 'e) world"
  shows "g_getRandomChars_minimums cs chars w = (x, w') \<Longrightarrow> logs (failed x) w w'"
proof (induction cs arbitrary: chars w)
  case Nil
  then show ?case by auto
next
  case (Cons c cs)
  obtain y w1 where G: "getRandomChars (random (gen w)) (set_cs c) (min_cs c) w = (y, w1)"
    by (cases "getRandomChars (random (gen w)) (set_cs c) (min_cs c) w")
  note L = getRandomChars_logs [OF G]
  show ?case
  proof (cases y)
    case (Inl e)
    with G Cons.prems L show ?thesis by auto
  next
    case (Inr newChars)
    show ?thesis
    proof (cases "append_runes chars newChars :: 'e failure + rune list")
      case (Inl e)
      from Inl G Inr Cons.prems have "x = Inl e" "w' = w1" by auto
      with append_runes_panic [OF Inl] L Inr show ?thesis by (simp add: logs_then_panic)
    next
      case A: (Inr chars')
      with G Inr Cons.prems have "g_getRandomChars_minimums cs chars' w1 = (x, w')" by simp
      from Cons.IH [OF this] L Inr show ?thesis by (auto intro: logs_trans)
    qed
  qed
qed

lemma g_getRandomChars_fill_logs:
  fixes w :: "('s, 'e) world"
  shows "g_getRandomChars_fill n i chars w = (x, w') \<Longrightarrow> logs (failed x) w w'"
proof (induction n i chars w arbitrary: x w' rule: g_getRandomChars_fill.induct)
  case (1 n i chars w)
  show ?case
  proof (cases "i < n - min_g (gen w)")
    case False
    with "1.prems" show ?thesis by (subst (asm) g_getRandomChars_fill.simps) auto
  next
    case True
    obtain y w1 where G: "Get (random (gen w)) (num (gen w)) w = (y, w1)"
      by (cases "Get (random (gen w)) (num (gen w)) w")
    note L = Get_logs [OF G]
    show ?thesis
    proof (cases y)
      case (Inl e)
      with True G "1.prems" L show ?thesis by (subst (asm) g_getRandomChars_fill.simps) auto
    next
      case (Inr k)
      show ?thesis
      proof (cases "g_getRandomChars_pick (charsets (gen w1)) k chars :: 'e failure + rune list")
        case P: (Inl e)
        with True G Inr "1.prems" have "x = Inl e" "w' = w1"
          by (subst (asm) g_getRandomChars_fill.simps, simp)+
        with L Inr g_getRandomChars_pick_panic [OF P] show ?thesis by (simp add: logs_then_panic)
      next
        case P: (Inr chars')
        with True G Inr "1.prems" have "g_getRandomChars_fill n (i + 1) chars' w1 = (x, w')"
          by (subst (asm) g_getRandomChars_fill.simps) simp
        from "1.IH" [OF True G [symmetric] Inr P this] L Inr show ?thesis
          by (auto intro: logs_trans)
      qed
    qed
  qed
qed

lemma g_getRandomChars_logs:
  fixes w :: "('s, 'e) world"
  assumes A: "g_getRandomChars n w = (x, w')"
  shows "logs (failed x) w w'"
proof (cases "make_runes_cap n :: 'e failure + rune list")
  case (Inl e)
  from Inl A have "x = Inl e" "w' = w" by (auto simp: g_getRandomChars_def)
  with make_runes_cap_panic [OF Inl] show ?thesis by (simp add: logs_panic_refl)
next
  case (Inr chars)
  obtain y w1 where M: "g_getRandomChars_minimums (charsets (gen w)) chars w = (y, w1)"
    by (cases "g_getRandomChars_minimums (charsets (gen w)) chars w")
  note L = g_getRandomChars_minimums_logs [OF M]
  show ?thesis
  proof (cases y)
    case (Inl e)
    with A Inr M L show ?thesis by (auto simp: g_getRandomChars_def)
  next
    case Y: (Inr chars')
    with A Inr M have "g_getRandomChars_fill n 0 chars' w1 = (x, w')"
      by (simp add: g_getRandomChars_def)
    from g_getRandomChars_fill_logs [OF this] L Y show ?thesis by (auto intro: logs_trans)
  qed
qed

lemma shuffle_loop_logs:
  "shuffle_loop r n i chars w = (f, chars', w') \<Longrightarrow> logs f w w'"
proof (induction r n i chars w arbitrary: f chars' w' rule: shuffle_loop.induct)
  case (1 r n i chars w)
  show ?case
  proof (cases "i < n - 1")
    case False
    with "1.prems" show ?thesis by (subst (asm) shuffle_loop.simps) auto
  next
    case True
    obtain y w1 where G: "Get r (n - i) w = (y, w1)" by (cases "Get r (n - i) w")
    note L = Get_logs [OF G]
    show ?thesis
    proof (cases y)
      case (Inl e)
      with True G "1.prems" L show ?thesis by (subst (asm) shuffle_loop.simps) auto
    next
      case (Inr k)
      show ?thesis
      proof (cases "unat i < length chars \<and> unat (i + k) < length chars")
        case c: True
        from True G Inr c "1.prems"
        have "shuffle_loop r n (i + 1)
                (chars[unat i := chars ! unat (i + k), unat (i + k) := chars ! unat i]) w1
              = (f, chars', w')"
          by (subst (asm) shuffle_loop.simps) simp
        from "1.IH" [OF True G [symmetric] Inr c this] L Inr show ?thesis
          by (auto intro: logs_trans)
      next
        case False
        with True G Inr "1.prems" have "f = Some (Panic IndexOutOfRange)" "w' = w1"
          by (subst (asm) shuffle_loop.simps, simp)+
        with L Inr show ?thesis by (simp add: logs_then_panic)
      qed
    qed
  qed
qed

lemma shuffle_logs: "shuffle r chars w = (f, chars', w') \<Longrightarrow> logs f w w'"
  by (auto simp: shuffle_def dest: shuffle_loop_logs)

lemma g_getRandomLength_logs:
  "\<not> (mx < mn \<or> mx < min_g (gen w)) \<Longrightarrow> g_getRandomLength mn mx w = (x, w') \<Longrightarrow> logs (failed x) w w'"
  by (auto simp: g_getRandomLength_def Let_def split: prod.splits sum.splits dest: Get_logs)

lemma Generate_logs:
  assumes "\<not> (mx < mn \<or> mx < min_g (gen w))" and G: "Generate mn mx w = (x, w')"
  shows "logs (failed x) w w'"
proof -
  obtain y w1 where L: "g_getRandomLength mn mx w = (y, w1)"
    by (cases "g_getRandomLength mn mx w")
  note L1 = g_getRandomLength_logs [OF assms(1) L]
  show ?thesis
  proof (cases y)
    case (Inl e)
    with G L L1 show ?thesis by (auto simp: Generate_def)
  next
    case Y: (Inr len)
    obtain z w2 where C: "g_getRandomChars len w1 = (z, w2)" by (cases "g_getRandomChars len w1")
    note L2 = g_getRandomChars_logs [OF C]
    show ?thesis
    proof (cases z)
      case (Inl e)
      with G L Y C L1 L2 show ?thesis by (auto simp: Generate_def intro: logs_trans)
    next
      case Z: (Inr chars)
      obtain f chars' w3 where S: "shuffle (random (gen w2)) chars w2 = (f, chars', w3)"
        by (cases "shuffle (random (gen w2)) chars w2")
      note L3 = shuffle_logs [OF S]
      from L1 L2 Y Z have L12: "logs None w w2" by (auto intro: logs_trans)
      from G L Y C Z S have "failed x = f" "w' = w3"
        by (auto simp: Generate_def split: option.splits)
      with logs_trans [OF L12 L3] show ?thesis by simp
    qed
  qed
qed


lemma propagated_Failed:
  assumes "propagated f (pre @ (b, Failed e) # post)"
  shows "f = Some (ProviderErr e) \<and> post = [] \<and> clean pre"
proof -
  have nc: "\<not> clean (pre @ (b, Failed e) # post)" by (simp add: clean_def)
  show ?thesis
  proof (cases post rule: rev_cases)
    case Nil
    with assms nc show ?thesis by (auto simp: propagated_def split: option.splits)
  next
    case (snoc ys y)
    then have "butlast (pre @ (b, Failed e) # post) = pre @ (b, Failed e) # ys"
      by (simp add: butlast_append)
    then have "\<not> clean (butlast (pre @ (b, Failed e) # post))" by (simp add: clean_def)
    with assms nc show ?thesis by (auto simp: propagated_def split: option.splits)
  qed
qed

section \<open>Errors of \<^verbatim>\<open>Generate\<close>\<close>



lemma Generate_log_grows: "\<exists>new. calls (snd (Generate mn mx w)) = calls w @ new"
proof (cases "mx < mn \<or> mx < min_g (gen w)")
  case True
  then have "Generate mn mx w = (Inl InvalidLengthErr, w)"
    by (auto simp: Generate_def g_getRandomLength_def)
  then show ?thesis by simp
next
  case False
  obtain x w' where G: "Generate mn mx w = (x, w')" by (cases "Generate mn mx w")
  from Generate_logs [OF False G] G show ?thesis by (auto simp: logs_def)
qed

text \<open>
  C8. The calls a \<^verbatim>\<open>Generate\<close> call makes to the provider are the ones it adds to the log
  (\<open>Generate_log_grows\<close>). When one of them returns an error, whatever the phase,
  \<^verbatim>\<open>Generate\<close> returns that error and no password, no call to the provider follows the
  failed one, and every call before it returned a number.
\<close>

theorem provider_error_propagates:
  assumes "Generate mn mx w = (res, w')"
    and "calls w' = calls w @ pre @ (b, Failed e) # post"
  shows "res = Inl (ProviderErr e) \<and> post = [] \<and> clean pre"
proof (cases "mx < mn \<or> mx < min_g (gen w)")
  case True
  then have "Generate mn mx w = (Inl InvalidLengthErr, w)"
    by (auto simp: Generate_def g_getRandomLength_def)
  with assms show ?thesis by simp
next
  case False
  from Generate_logs [OF False assms(1)] obtain new
    where n: "calls w' = calls w @ new" "propagated (failed res) new"
    by (auto simp: logs_def)
  with assms(2) have "propagated (failed res) (pre @ (b, Failed e) # post)" by simp
  from propagated_Failed [OF this] show ?thesis by (cases res) auto
qed

theorem provider_error_propagates_witness:
  "fst (Generate 2 5 (demo_world [Value 1, Value 1, Failed ()])) = Inl (ProviderErr ())
   \<and> calls (snd (Generate 2 5 (demo_world [Value 1, Value 1, Failed ()]))) =
       [(3, Value 1), (2, Value 1), (3, Failed ())]"
proof -
  let ?w = "demo_world [Value 1, Value 1, Failed ()]"
  have c: "calls (snd (Generate 2 5 ?w)) = calls ?w @ [(3, Value 1), (2, Value 1)] @ (3, Failed ()) # []"
    by (simp add: run_simps)
  have g: "Generate 2 5 ?w = (fst (Generate 2 5 ?w), snd (Generate 2 5 ?w))" by simp
  from provider_error_propagates [OF g c] c show ?thesis by (simp add: demo_world_def)
qed

section \<open>Shuffle of the empty slice\<close>

lemma counting_in_range: "in_range counting"
  by (auto simp: in_range_def counting_def word_mod_less_divisor word_gt_0 split: if_splits)

text \<open>
  C6. A slice of one element is left alone, with no call to the provider
  (\<open>shuffle_single\<close>). The empty slice is not: its length 0 makes the loop bound \<open>n - 1\<close>
  wrap around to the largest \<^verbatim>\<open>uint\<close>, so the loop is entered, the provider is asked for a
  number with bound 0, and \<^verbatim>\<open>chars[0]\<close> panics if it returns one (\<open>shuffle_Nil\<close>). Here
  with a provider that answers 0; and through \<^verbatim>\<open>Generate(0, 0)\<close> on a generator with no
  minimum and the default provider, which panics on the bound 0.
\<close>

theorem shuffle_empty_slice_asks_provider:
  "shuffle scripted [] (demo_world [Value 0]) =
     (Some (Panic IndexOutOfRange), [],
      \<lparr>gen = demo_generator scripted, prov = [], calls = [(0, Value 0)]\<rparr>)
   \<and> NewGenerator zero_Int [WithCharacters [97] 0] = Inr lone_generator
   \<and> Generate 0 0 \<lparr>gen = lone_generator, prov = (), calls = []\<rparr> =
       (Inl (Panic ProviderPanic),
        \<lparr>gen = lone_generator, prov = (), calls = [(1, Value 0), (0, Panics)]\<rparr>)"
  by (simp add: run_simps NewGenerator_def WithCharacters_def lone_generator_def
      random_Get_def zero_Int_def word_gt_0)

text \<open>
  C5. Whatever the slice, the provider and the outcome, the slice \<^verbatim>\<open>shuffle\<close> leaves behind
  is a permutation of the one it was given (\<open>shuffle_mset\<close>), and on a non-empty slice,
  with a provider that keeps its contract, \<^verbatim>\<open>shuffle\<close> is the left-to-right pass over the
  positions \<open>0\<close> to \<open>length - 2\<close> (\<open>shuffle_is_pass\<close>). On the empty slice it is not that
  pass, which has no position to visit and returns at once: with a provider that keeps
  its contract, \<^verbatim>\<open>shuffle\<close> asks for a number below 0 and ends in the provider's panic.
\<close>

theorem shuffle_empty_slice_is_not_the_pass:
  "shuffle counting [] \<lparr>gen = demo_generator counting, prov = 0, calls = []\<rparr> =
     (Some (Panic ProviderPanic), [],
      \<lparr>gen = demo_generator counting, prov = 0, calls = [(0, Panics)]\<rparr>)
   \<and> shuffle_pass counting [0..<length ([] :: rune list) - 1] []
       \<lparr>gen = demo_generator counting, prov = 0, calls = []\<rparr> =
     (None, [], \<lparr>gen = demo_generator counting, prov = 0, calls = []\<rparr>)"
  by (simp add: shuffle_Nil Get_def counting_def)

section \<open>What \<^verbatim>\<open>NewGenerator\<close> builds\<close>

lemma pool_append [simp]: "pool (cs @ cs') = pool cs @ pool cs'"
  by (simp add: pool_def)

lemma pool_Nil [simp]: "pool [] = []"
  by (simp add: pool_def)

lemma pool_Cons [simp]: "pool (c # cs) = set_cs c @ pool cs"
  by (simp add: pool_def)

lemma foldl_options:
  "charsets (foldl (\<lambda>g o'. o' g) g (map option_of ds)) = charsets g @ registered ds
   \<and> min_g (foldl (\<lambda>g o'. o' g) g (map option_of ds)) = min_g g + sum_list (map min_cs (registered ds))
   \<and> num (foldl (\<lambda>g o'. o' g) g (map option_of ds)) = num g + of_nat (length (pool (registered ds)))"
proof (induction ds arbitrary: g rule: registered.induct)
  case 1
  show ?case by simp
next
  case (2 cs mn ds)
  show ?case using 2 [of "WithCharacters cs mn g"]
    by (simp add: WithCharacters_def algebra_simps)
next
  case (3 r ds)
  show ?case using 3 [of "WithRandom r g"] by (simp add: WithRandom_def)
qed

lemma NewGenerator_built:
  assumes "NewGenerator rand_Int (map option_of ds) = Inr g"
  shows "charsets g = registered ds \<and> min_g g = sum_list (map min_cs (registered ds))
     \<and> num g = of_nat (length (pool (registered ds))) \<and> num g \<noteq> 0"
  using assms
    foldl_options [of "\<lparr>charsets = [], min_g = 0, num = 0, random = random_Get rand_Int\<rparr>" ds]
  by (auto simp: NewGenerator_def Let_def split: if_splits)

lemma pool_empty_iff: "pool cs = [] \<longleftrightarrow> list_all (\<lambda>c. set_cs c = []) cs"
  by (induction cs) auto

lemma registered_replicate:
  "registered (replicate n (WithCharacterSet cs mn)) = replicate n \<lparr>set_cs = cs, min_cs = mn\<rparr>"
  by (induction n) auto

lemma length_pool_replicate: "length (pool (replicate n c)) = n * length (set_cs c)"
  by (induction n) auto

text \<open>
  C4, as amended. Building fails with \<open>NoCharactersErr\<close> exactly when the pool size the code
  computes, the sum of the set lengths in \<^verbatim>\<open>uint\<close> arithmetic, is 0. When the lengths sum to
  less than \<open>2 ^ 64\<close>, that is exactly when no set was registered or every registered set is
  empty. A failure returns no generator, and no other failure exists.
\<close>

theorem NewGenerator_NoCharactersErr_iff:
  "(NewGenerator rand_Int (map option_of ds) = Inl NoCharactersErr
      \<longleftrightarrow> (of_nat (length (pool (registered ds))) :: uint) = 0)
   \<and> (length (pool (registered ds)) < 2 ^ 64 \<longrightarrow>
        (NewGenerator rand_Int (map option_of ds) = Inl NoCharactersErr
           \<longleftrightarrow> list_all (\<lambda>c. set_cs c = []) (registered ds)))
   \<and> (\<forall>e. NewGenerator rand_Int (map option_of ds) = Inl e \<longrightarrow> e = NoCharactersErr)"
proof -
  let ?g0 = "\<lparr>charsets = [], min_g = 0, num = 0, random = random_Get rand_Int\<rparr>"
  have n: "num (foldl (\<lambda>g o'. o' g) ?g0 (map option_of ds)) = of_nat (length (pool (registered ds)))"
    using foldl_options [of ?g0 ds] by simp
  have a: "NewGenerator rand_Int (map option_of ds) = Inl NoCharactersErr
      \<longleftrightarrow> (of_nat (length (pool (registered ds))) :: uint) = 0"
    using n by (simp add: NewGenerator_def Let_def)
  have b: "(of_nat (length (pool (registered ds))) :: uint) = 0 \<longleftrightarrow> pool (registered ds) = []"
    if "length (pool (registered ds)) < 2 ^ 64"
  proof -
    have "unat (of_nat (length (pool (registered ds))) :: uint) = length (pool (registered ds))"
      using that by (simp add: unat_of_nat)
    then show ?thesis by (metis length_0_conv unat_eq_zero)
  qed
  have c: "\<forall>e. NewGenerator rand_Int (map option_of ds) = Inl e \<longrightarrow> e = NoCharactersErr"
    by (auto simp: NewGenerator_def Let_def split: if_splits)
  from a b c show ?thesis by (simp add: pool_empty_iff)
qed

theorem NewGenerator_NoCharactersErr_iff_witness:
  "NewGenerator (zero_Int :: unit \<Rightarrow> int \<Rightarrow> (unit + int) \<times> unit)
      (map option_of [WithCharacterSet [] 3, WithCharacterSet [] 0]) = Inl NoCharactersErr
   \<and> NewGenerator (zero_Int :: unit \<Rightarrow> int \<Rightarrow> (unit + int) \<times> unit) (map option_of []) =
       Inl NoCharactersErr
   \<and> NewGenerator (zero_Int :: unit \<Rightarrow> int \<Rightarrow> (unit + int) \<times> unit)
      (map option_of [WithCharacterSet [] 3, WithCharacterSet [97] 0]) \<noteq> Inl NoCharactersErr"
  using NewGenerator_NoCharactersErr_iff
      [of "zero_Int :: unit \<Rightarrow> int \<Rightarrow> (unit + int) \<times> unit" "[WithCharacterSet [] 3, WithCharacterSet [] 0]"]
    NewGenerator_NoCharactersErr_iff [of "zero_Int :: unit \<Rightarrow> int \<Rightarrow> (unit + int) \<times> unit" "[]"]
    NewGenerator_NoCharactersErr_iff
      [of "zero_Int :: unit \<Rightarrow> int \<Rightarrow> (unit + int) \<times> unit" "[WithCharacterSet [] 3, WithCharacterSet [97] 0]"]
  by simp

text \<open>
  The claim as stated fails where the lengths sum to a multiple of \<open>2 ^ 64\<close>: the pool of
  \<open>huge_directives\<close> has \<open>2 ^ 64\<close> characters, none of its sets is empty, and building fails
  with \<open>NoCharactersErr\<close>.
\<close>

theorem NewGenerator_rejects_nonempty_pool:
  "NewGenerator zero_Int (map option_of huge_directives) = Inl NoCharactersErr
   \<and> length (pool (registered huge_directives)) = 2 ^ 64
   \<and> \<not> list_all (\<lambda>c. set_cs c = []) (registered huge_directives)"
proof -
  have l: "length (pool (registered huge_directives)) = 2 ^ 64"
    by (simp add: huge_directives_def registered_replicate length_pool_replicate flip: power_add)
  have "(of_nat (length (pool (registered huge_directives))) :: uint) = 0"
    unfolding l by simp
  then have a: "NewGenerator zero_Int (map option_of huge_directives) = Inl NoCharactersErr"
    using foldl_options [of "\<lparr>charsets = [], min_g = 0, num = 0, random = random_Get zero_Int\<rparr>" huge_directives]
    by (simp add: NewGenerator_def Let_def)
  have "pool (registered huge_directives) \<noteq> []" using l by auto
  then have c: "\<not> list_all (\<lambda>c. set_cs c = []) (registered huge_directives)"
    by (simp add: pool_empty_iff)
  from a l c show ?thesis by simp
qed

section \<open>What the character selection returns\<close>

lemma getRandomChars_loop_result:
  "getRandomChars_loop r from l n i chars w = (Inr out, w') \<Longrightarrow>
     length out = length chars
     \<and> (\<forall>j. j < unat i \<longrightarrow> j < length chars \<longrightarrow> out ! j = chars ! j)
     \<and> (\<forall>j. unat i \<le> j \<longrightarrow> j < unat n \<longrightarrow> j < length chars \<longrightarrow> out ! j \<in> set from)"
proof (induction r "from" l n i chars w arbitrary: out w' rule: getRandomChars_loop.induct)
  case (1 r "from" l n i chars w)
  show ?case
  proof (cases "i < n")
    case False
    then have "unat n \<le> unat i" by (simp add: word_less_nat_alt)
    with False "1.prems" show ?thesis by (subst (asm) getRandomChars_loop.simps) auto
  next
    case True
    then have lt: "unat i < unat n" by (simp add: word_less_nat_alt)
    have "unat n < 2 ^ 64" using unsigned_less [of n] by simp
    with lt have "unat i + 1 < 2 ^ 64" by linarith
    then have ui1: "unat (i + 1) = Suc (unat i)" by (simp add: unat_plus_if')
    obtain y w1 where G: "Get r l w = (y, w1)" by (cases "Get r l w")
    from True G "1.prems" obtain k where y: "y = Inr k"
      by (subst (asm) getRandomChars_loop.simps) (cases y, auto)
    from True G y "1.prems" have c: "unat k < length from \<and> unat i < length chars"
      by (subst (asm) getRandomChars_loop.simps) (auto split: if_splits)
    let ?chars = "chars[unat i := from ! unat k]"
    from True G y c "1.prems"
    have "getRandomChars_loop r from l n (i + 1) ?chars w1 = (Inr out, w')"
      by (subst (asm) getRandomChars_loop.simps) simp
    from "1.IH" [OF True G [symmetric] y c this] ui1
    have len: "length out = length chars"
      and pre: "\<And>j. j < Suc (unat i) \<Longrightarrow> j < length chars \<Longrightarrow> out ! j = ?chars ! j"
      and post: "\<And>j. Suc (unat i) \<le> j \<Longrightarrow> j < unat n \<Longrightarrow> j < length chars \<Longrightarrow> out ! j \<in> set from"
      by auto
    have "out ! j \<in> set from" if "unat i \<le> j" "j < unat n" "j < length chars" for j
    proof (cases "j = unat i")
      case True
      with pre [of j] c show ?thesis by simp
    next
      case False
      with that post [of j] show ?thesis by simp
    qed
    moreover have "out ! j = chars ! j" if "j < unat i" "j < length chars" for j
      using pre [of j] that by simp
    ultimately show ?thesis using len by blast
  qed
qed

lemma getRandomChars_result:
  assumes "getRandomChars r from n w = (Inr out, w')"
  shows "length out = unat n \<and> set out \<subseteq> set from \<and> unat n \<le> maxInt"
proof -
  from assms have m: "unat n \<le> maxInt"
    by (auto simp: getRandomChars_def make_runes_def split: if_splits)
  with assms have "getRandomChars_loop r from (of_nat (length from)) n 0 (replicate (unat n) 0) w = (Inr out, w')"
    by (simp add: getRandomChars_def make_runes_def)
  from getRandomChars_loop_result [OF this]
  have len: "length out = unat n" and el: "\<And>j. j < unat n \<Longrightarrow> out ! j \<in> set from"
    by auto
  then have "set out \<subseteq> set from" by (auto simp: in_set_conv_nth)
  with len m show ?thesis by simp
qed

lemma append_runes_Inr: "append_runes xs ys = Inr zs \<Longrightarrow> zs = xs @ ys \<and> length zs \<le> maxInt"
  by (auto simp: append_runes_def split: if_splits)

lemma g_getRandomChars_minimums_result:
  fixes w :: "('s, 'e) world"
  shows "g_getRandomChars_minimums cs chars w = (Inr out, w') \<Longrightarrow>
     (\<exists>news. out = chars @ news
        \<and> length news = sum_list (map (\<lambda>c. unat (min_cs c)) cs)
        \<and> (\<forall>c \<in> set cs. unat (min_cs c) \<le> length (filter (\<lambda>x. x \<in> set (set_cs c)) news)))
     \<and> (cs \<noteq> [] \<longrightarrow> length out \<le> maxInt)"
proof (induction cs arbitrary: chars w out)
  case Nil
  then show ?case by simp
next
  case (Cons d cs)
  obtain y w1 where G: "getRandomChars (random (gen w)) (set_cs d) (min_cs d) w = (y, w1)"
    by (cases "getRandomChars (random (gen w)) (set_cs d) (min_cs d) w")
  from G Cons.prems obtain newChars where y: "y = Inr newChars" by (cases y) auto
  from G y Cons.prems obtain chars' where
    A: "append_runes chars newChars = (Inr chars' :: 'e failure + rune list)"
    by (cases "append_runes chars newChars :: 'e failure + rune list") auto
  from append_runes_Inr [OF A] have ch: "chars' = chars @ newChars" and lim: "length chars' \<le> maxInt"
    by auto
  from G y have N: "length newChars = unat (min_cs d)" "set newChars \<subseteq> set (set_cs d)"
    using getRandomChars_result by blast+
  from G y A Cons.prems have R: "g_getRandomChars_minimums cs chars' w1 = (Inr out, w')" by simp
  from Cons.IH [OF R] obtain news where
    o: "out = chars' @ news" and l: "length news = sum_list (map (\<lambda>c. unat (min_cs c)) cs)"
    and m: "\<forall>c \<in> set cs. unat (min_cs c) \<le> length (filter (\<lambda>x. x \<in> set (set_cs c)) news)"
    and b: "cs \<noteq> [] \<longrightarrow> length out \<le> maxInt"
    by auto
  have all: "filter (\<lambda>x. x \<in> set (set_cs d)) newChars = newChars"
    using N(2) by (auto simp: filter_id_conv)
  have "out = chars @ (newChars @ news)" using o ch by simp
  moreover have "length (newChars @ news) = sum_list (map (\<lambda>c. unat (min_cs c)) (d # cs))"
    using l N(1) by simp
  moreover have "\<forall>c \<in> set (d # cs). unat (min_cs c) \<le> length (filter (\<lambda>x. x \<in> set (set_cs c)) (newChars @ news))"
    using m all N(1) by (auto simp: le_SucI trans_le_add2)
  moreover have "length out \<le> maxInt"
  proof (cases "cs = []")
    case True
    with R have "out = chars'" by simp
    with lim show ?thesis by simp
  next
    case False
    with b show ?thesis by simp
  qed
  ultimately show ?case by blast
qed

lemma g_getRandomChars_pick_prefix:
  "g_getRandomChars_pick cs k chars = Inr out \<Longrightarrow> \<exists>extra. out = chars @ extra"
  by (induction cs arbitrary: k) (auto split: if_splits dest: append_runes_Inr)

lemma g_getRandomChars_pick_pool:
  "\<forall>c \<in> set cs. length (set_cs c) < 2 ^ 64 \<Longrightarrow> unat k < length (pool cs) \<Longrightarrow>
     g_getRandomChars_pick cs k chars = append_runes chars [pool cs ! unat k]"
proof (induction cs arbitrary: k)
  case Nil
  then show ?case by simp
next
  case (Cons c cs)
  let ?L = "length (set_cs c)"
  have L: "unat (of_nat ?L :: uint) = ?L" using Cons.prems(1) by (simp add: unat_of_nat)
  show ?case
  proof (cases "k < of_nat ?L")
    case True
    then have "unat k < ?L" using L by (simp add: word_less_nat_alt)
    with True show ?thesis by (simp add: nth_append)
  next
    case False
    then have ge: "?L \<le> unat k" using L by (simp add: word_less_nat_alt)
    then have "of_nat ?L \<le> k" using L by (simp add: word_le_nat_alt)
    then have u: "unat (k - of_nat ?L) = unat k - ?L" using L by (simp add: unat_sub)
    with ge Cons.prems(2) have "unat (k - of_nat ?L) < length (pool cs)" by simp
    from Cons.IH [OF _ this] Cons.prems(1) False u ge show ?thesis
      by (simp add: nth_append)
  qed
qed

lemma Get_Inr:
  "Get r b w = (Inr k, w') \<Longrightarrow>
     calls w' = calls w @ [(b, Value k)] \<and> gen w' = gen w \<and> r (prov w) b = (Value k, prov w')"
  by (auto simp: Get_def split: prod.splits reply.splits)

lemma g_getRandomChars_fill_prefix:
  fixes w :: "('s, 'e) world"
  shows "g_getRandomChars_fill n i chars w = (Inr out, w') \<Longrightarrow> \<exists>extra. out = chars @ extra"
proof (induction n i chars w arbitrary: out w' rule: g_getRandomChars_fill.induct)
  case (1 n i chars w)
  show ?case
  proof (cases "i < n - min_g (gen w)")
    case False
    with "1.prems" show ?thesis by (subst (asm) g_getRandomChars_fill.simps) auto
  next
    case True
    obtain y w1 where G: "Get (random (gen w)) (num (gen w)) w = (y, w1)"
      by (cases "Get (random (gen w)) (num (gen w)) w")
    from True G "1.prems" obtain k where y: "y = Inr k"
      by (subst (asm) g_getRandomChars_fill.simps) (cases y, auto)
    from True G y "1.prems" obtain chars' where
      P: "g_getRandomChars_pick (charsets (gen w1)) k chars = (Inr chars' :: 'e failure + rune list)"
      by (subst (asm) g_getRandomChars_fill.simps)
         (cases "g_getRandomChars_pick (charsets (gen w1)) k chars :: 'e failure + rune list", auto)
    from True G y P "1.prems" have "g_getRandomChars_fill n (i + 1) chars' w1 = (Inr out, w')"
      by (subst (asm) g_getRandomChars_fill.simps) simp
    from "1.IH" [OF True G [symmetric] y P this] g_getRandomChars_pick_prefix [OF P]
    show ?thesis by auto
  qed
qed

lemma g_getRandomChars_fill_pool:
  fixes w :: "('s, 'e) world"
  shows "in_range (random (gen w)) \<Longrightarrow> \<forall>c \<in> set (charsets (gen w)). length (set_cs c) < 2 ^ 64 \<Longrightarrow>
     num (gen w) = of_nat (length (pool (charsets (gen w)))) \<Longrightarrow>
     g_getRandomChars_fill n i chars w = (Inr out, w') \<Longrightarrow>
     \<exists>ks. length ks = unat (n - min_g (gen w)) - unat i
        \<and> out = chars @ map (\<lambda>k. pool (charsets (gen w)) ! unat k) ks
        \<and> calls w' = calls w @ map (\<lambda>k. (num (gen w), Value k)) ks
        \<and> list_all (\<lambda>k. k < num (gen w)) ks"
proof (induction n i chars w arbitrary: out w' rule: g_getRandomChars_fill.induct)
  case (1 n i chars w)
  let ?m = "n - min_g (gen w)"
  show ?case
  proof (cases "i < ?m")
    case False
    then have "unat ?m - unat i = 0" by (simp add: word_less_nat_alt)
    moreover from False "1.prems" have "out = chars" "w' = w"
      by (subst (asm) g_getRandomChars_fill.simps, simp)+
    ultimately show ?thesis by simp
  next
    case True
    then have lt: "unat i < unat ?m" by (simp add: word_less_nat_alt)
    have "unat ?m < 2 ^ 64" using unsigned_less [of ?m] by simp
    with lt have "unat i + 1 < 2 ^ 64" by linarith
    then have ui1: "unat (i + 1) = Suc (unat i)" by (simp add: unat_plus_if')
    obtain y w1 where G: "Get (random (gen w)) (num (gen w)) w = (y, w1)"
      by (cases "Get (random (gen w)) (num (gen w)) w")
    from True G "1.prems" obtain k where y: "y = Inr k"
      by (subst (asm) g_getRandomChars_fill.simps) (cases y, auto)
    from Get_Inr [OF G [unfolded y]]
    have c1: "calls w1 = calls w @ [(num (gen w), Value k)]" and g1: "gen w1 = gen w" by auto
    from G y "1.prems"(1) have kn: "k < num (gen w)" by (auto dest: Get_in_range)
    then have "unat k < unat (of_nat (length (pool (charsets (gen w)))) :: uint)"
      using "1.prems"(3) by (simp add: word_less_nat_alt)
    also have "\<dots> \<le> length (pool (charsets (gen w)))" by (simp add: unat_of_nat)
    finally have kp: "unat k < length (pool (charsets (gen w)))" .
    from True G y "1.prems" obtain chars' where
      P: "g_getRandomChars_pick (charsets (gen w1)) k chars = (Inr chars' :: 'e failure + rune list)"
      by (subst (asm) g_getRandomChars_fill.simps)
         (cases "g_getRandomChars_pick (charsets (gen w1)) k chars :: 'e failure + rune list", auto)
    have "(g_getRandomChars_pick (charsets (gen w)) k chars :: 'e failure + rune list)
        = append_runes chars [pool (charsets (gen w)) ! unat k]"
      by (rule g_getRandomChars_pick_pool [OF "1.prems"(2) kp])
    with P g1
    have "append_runes chars [pool (charsets (gen w)) ! unat k] = (Inr chars' :: 'e failure + rune list)"
      by simp
    then have ch: "chars' = chars @ [pool (charsets (gen w)) ! unat k]" by (auto dest: append_runes_Inr)
    from True G y P "1.prems" have R: "g_getRandomChars_fill n (i + 1) chars' w1 = (Inr out, w')"
      by (subst (asm) g_getRandomChars_fill.simps) simp
    from "1.IH" [OF True G [symmetric] y P _ _ _ R] "1.prems" g1
    obtain ks where
      "length ks = unat ?m - unat (i + 1)"
      "out = chars' @ map (\<lambda>k. pool (charsets (gen w)) ! unat k) ks"
      "calls w' = calls w1 @ map (\<lambda>k. (num (gen w), Value k)) ks"
      "list_all (\<lambda>k. k < num (gen w)) ks"
      by auto
    with ch c1 kn ui1 lt
    have "length (k # ks) = unat ?m - unat i
        \<and> out = chars @ map (\<lambda>k. pool (charsets (gen w)) ! unat k) (k # ks)
        \<and> calls w' = calls w @ map (\<lambda>k. (num (gen w), Value k)) (k # ks)
        \<and> list_all (\<lambda>k. k < num (gen w)) (k # ks)"
      by simp
    then show ?thesis by blast
  qed
qed

lemma Generate_Inr:
  assumes "Generate mn mx w = (Inr pw, w')"
  shows "\<exists>len w1 chars1 w2 chars w3.
     g_getRandomLength mn mx w = (Inr len, w1) \<and> unat len \<le> maxInt
     \<and> g_getRandomChars_minimums (charsets (gen w)) [] w1 = (Inr chars1, w2)
     \<and> g_getRandomChars_fill len 0 chars1 w2 = (Inr chars, w3)
     \<and> shuffle (random (gen w)) chars w3 = (None, pw, w')
     \<and> gen w1 = gen w \<and> gen w2 = gen w \<and> gen w3 = gen w"
proof -
  obtain y w1 where L: "g_getRandomLength mn mx w = (y, w1)" by (cases "g_getRandomLength mn mx w")
  with assms obtain len where y: "y = Inr len" by (cases y) (auto simp: Generate_def)
  have g1: "gen w1 = gen w" using L by (rule g_getRandomLength_genD)
  obtain z w3 where C: "g_getRandomChars len w1 = (z, w3)" by (cases "g_getRandomChars len w1")
  with assms L y obtain chars where z: "z = Inr chars" by (cases z) (auto simp: Generate_def)
  have g3: "gen w3 = gen w" using C g1 by (auto dest: g_getRandomChars_genD)
  from assms L y C z g3 have S: "shuffle (random (gen w)) chars w3 = (None, pw, w')"
    by (auto simp: Generate_def split: prod.splits option.splits)
  from C z have cap: "unat len \<le> maxInt"
    by (auto simp: g_getRandomChars_def make_runes_cap_def split: if_splits)
  obtain u w2 where M: "g_getRandomChars_minimums (charsets (gen w1)) [] w1 = (u, w2)"
    by (cases "g_getRandomChars_minimums (charsets (gen w1)) [] w1")
  with C z cap obtain chars1 where u: "u = Inr chars1"
    by (cases u) (auto simp: g_getRandomChars_def make_runes_cap_def)
  have g2: "gen w2 = gen w" using M g1 by (auto dest: g_getRandomChars_minimums_genD)
  from C z cap M u have F: "g_getRandomChars_fill len 0 chars1 w2 = (Inr chars, w3)"
    by (auto simp: g_getRandomChars_def make_runes_cap_def)
  from L y cap M u F S g1 g2 g3 show ?thesis by auto
qed

lemma length_filter_mset: "mset xs = mset ys \<Longrightarrow> length (filter P xs) = length (filter P ys)"
  by (metis mset_filter size_mset)

text \<open>
  C1. The password a successful \<^verbatim>\<open>Generate\<close> call returns holds, for every registered set,
  at least that set's minimum of characters that occur in the set. (This holds for every
  generator, built by \<^verbatim>\<open>NewGenerator\<close> or not.)
\<close>

theorem Generate_meets_minimums:
  assumes "Generate mn mx w = (Inr pw, w')" and "c \<in> set (charsets (gen w))"
  shows "unat (min_cs c) \<le> length (filter (\<lambda>x. x \<in> set (set_cs c)) pw)"
proof -
  from Generate_Inr [OF assms(1)] obtain len w1 chars1 w2 chars w3 where
    M: "g_getRandomChars_minimums (charsets (gen w)) [] w1 = (Inr chars1, w2)"
    and F: "g_getRandomChars_fill len 0 chars1 w2 = (Inr chars, w3)"
    and S: "shuffle (random (gen w)) chars w3 = (None, pw, w')"
    by blast
  let ?P = "\<lambda>x. x \<in> set (set_cs c)"
  from g_getRandomChars_minimums_result [OF M] assms(2)
  have "unat (min_cs c) \<le> length (filter ?P chars1)" by auto
  also from g_getRandomChars_fill_prefix [OF F] have "\<dots> \<le> length (filter ?P chars)" by auto
  also have "\<dots> = length (filter ?P pw)"
    using shuffle_mset [of "random (gen w)" chars w3] S by (auto intro: length_filter_mset)
  finally show ?thesis .
qed

theorem Generate_meets_minimums_witness:
  "fst (Generate 2 5 (demo_world [Value 1, Value 1, Value 0, Value 2, Value 4, Value 3,
       Value 2, Value 0])) = Inr [50, 98, 50, 48]
   \<and> unat (1 :: uint) \<le> length (filter (\<lambda>x. x \<in> set [97, 98]) [50, 98, 50, 48 :: rune])
   \<and> unat (2 :: uint) \<le> length (filter (\<lambda>x. x \<in> set [48, 49, 50]) [50, 98, 50, 48 :: rune])"
proof -
  let ?w = "demo_world [Value 1, Value 1, Value 0, Value 2, Value 4, Value 3, Value 2, Value 0]"
  have f: "fst (Generate 2 5 ?w) = Inr [50, 98, 50, 48]" by (simp add: run_simps)
  then have g: "Generate 2 5 ?w = (Inr [50, 98, 50, 48], snd (Generate 2 5 ?w))"
    by (cases "Generate 2 5 ?w") simp
  have "\<lparr>set_cs = [97, 98], min_cs = 1\<rparr> \<in> set (charsets (gen ?w))"
    "\<lparr>set_cs = [48, 49, 50], min_cs = 2\<rparr> \<in> set (charsets (gen ?w))"
    by (simp_all add: demo_world_def demo_generator_def)
  from this [THEN Generate_meets_minimums [OF g]] f show ?thesis by simp
qed

section \<open>The uniform fill\<close>

lemma list_all_maxInt:
  "list_all (\<lambda>c. length (set_cs c) \<le> maxInt) cs \<Longrightarrow> \<forall>c \<in> set cs. length (set_cs c) < 2 ^ 64"
  by (auto simp: list_all_iff maxInt_def)

lemma counting_built:
  "NewGenerator zero_Int (map option_of counting_directives) = Inr (gen (counting_world s))"
  by (simp add: NewGenerator_def counting_directives_def counting_world_def demo_generator_def
      WithCharacters_def WithRandom_def)

text \<open>
  C7. For a generator built from directives whose sets are Go slices, and a provider that
  keeps its contract: an index \<open>k\<close> below the pool size makes the inner loop append exactly
  the \<open>k\<close>-th character of the pool, the registered sets laid end to end in registration
  order; and a fill phase that returns has made exactly \<open>n - min\<close> draws, each with the pool
  size as bound, and has appended, in order, the pool's character at each drawn index.
\<close>

theorem uniform_fill_draws_from_pool:
  fixes w :: "('s, 'e) world"
  assumes "NewGenerator rand_Int (map option_of ds) = Inr (gen w)"
    and "list_all (\<lambda>c. length (set_cs c) \<le> maxInt) (registered ds)"
    and "in_range (random (gen w))"
  shows "(\<forall>k chars. k < num (gen w) \<longrightarrow>
            (g_getRandomChars_pick (charsets (gen w)) k chars :: 'e failure + rune list) =
              append_runes chars [pool (registered ds) ! unat k])
     \<and> (\<forall>n chars out w'. g_getRandomChars_fill n 0 chars w = (Inr out, w') \<longrightarrow>
            (\<exists>ks. length ks = unat (n - min_g (gen w))
               \<and> out = chars @ map (\<lambda>k. pool (registered ds) ! unat k) ks
               \<and> calls w' = calls w @ map (\<lambda>k. (num (gen w), Value k)) ks
               \<and> list_all (\<lambda>k. k < num (gen w)) ks))"
proof -
  from NewGenerator_built [OF assms(1)]
  have cs: "charsets (gen w) = registered ds"
    and nm: "num (gen w) = of_nat (length (pool (registered ds)))"
    by auto
  from list_all_maxInt [OF assms(2)] cs
  have wf: "\<forall>c \<in> set (charsets (gen w)). length (set_cs c) < 2 ^ 64" by simp
  have a: "(g_getRandomChars_pick (charsets (gen w)) k chars :: 'e failure + rune list) =
      append_runes chars [pool (registered ds) ! unat k]" if "k < num (gen w)" for k chars
  proof -
    from that nm have "unat k < unat (of_nat (length (pool (registered ds))) :: uint)"
      by (simp add: word_less_nat_alt)
    also have "\<dots> \<le> length (pool (registered ds))" by (simp add: unat_of_nat)
    finally have "unat k < length (pool (charsets (gen w)))" using cs by simp
    from g_getRandomChars_pick_pool [OF wf this] cs show ?thesis by simp
  qed
  have b: "\<exists>ks. length ks = unat (n - min_g (gen w))
       \<and> out = chars @ map (\<lambda>k. pool (registered ds) ! unat k) ks
       \<and> calls w' = calls w @ map (\<lambda>k. (num (gen w), Value k)) ks
       \<and> list_all (\<lambda>k. k < num (gen w)) ks"
    if "g_getRandomChars_fill n 0 chars w = (Inr out, w')" for n chars out w'
    using g_getRandomChars_fill_pool [OF assms(3) wf _ that] nm cs by simp
  from a b show ?thesis by blast
qed

theorem uniform_fill_draws_from_pool_witness:
  "g_getRandomChars_pick (charsets (gen (counting_world 0))) 4 [7] = (Inr [7, 50] :: unit failure + rune list)
   \<and> g_getRandomChars_fill 5 0 [98, 48, 50] (counting_world 0) =
       (Inr [98, 48, 50, 97, 98],
        \<lparr>gen = demo_generator counting, prov = 2, calls = [(5, Value 0), (5, Value 1)]\<rparr>)"
proof -
  have wf: "list_all (\<lambda>c. length (set_cs c) \<le> maxInt) (registered counting_directives)"
    by (simp add: counting_directives_def maxInt_def)
  have r: "in_range (random (gen (counting_world 0)))"
    by (simp add: counting_world_def demo_generator_def counting_in_range)
  have k: "(4 :: uint) < num (gen (counting_world 0))"
    by (simp add: counting_world_def demo_generator_def)
  note T = uniform_fill_draws_from_pool [OF counting_built wf r]
  from T [THEN conjunct1, rule_format, OF k, of "[7]"]
  have a: "g_getRandomChars_pick (charsets (gen (counting_world 0))) 4 [7] = (Inr [7, 50] :: unit failure + rune list)"
    by (simp add: counting_directives_def append_runes_def maxInt_def)
  have b: "g_getRandomChars_fill 5 0 [98, 48, 50] (counting_world 0) =
       (Inr [98, 48, 50, 97, 98],
        \<lparr>gen = demo_generator counting, prov = 2, calls = [(5, Value 0), (5, Value 1)]\<rparr>)"
    by (simp add: run_simps counting_world_def counting_def)
  from a b show ?thesis by simp
qed

section \<open>The selected length\<close>

lemma unat_sum_list:
  "unat (sum_list (map f xs) :: uint) = sum_list (map (\<lambda>x. unat (f x)) xs) mod 2 ^ 64"
proof (induction xs)
  case Nil
  show ?case by simp
next
  case (Cons x xs)
  have "unat (f x + sum_list (map f xs)) = (unat (f x) + unat (sum_list (map f xs))) mod 2 ^ 64"
    by (simp add: unat_word_ariths)
  also have "\<dots> = (unat (f x) + sum_list (map (\<lambda>x. unat (f x)) xs) mod 2 ^ 64) mod 2 ^ 64"
    using Cons.IH by simp
  also have "\<dots> = (unat (f x) + sum_list (map (\<lambda>x. unat (f x)) xs)) mod 2 ^ 64"
    by (simp add: mod_add_right_eq)
  finally show ?case by simp
qed

lemma less_plus_one_unat:
  fixes d x :: uint
  assumes "d < x + 1"
  shows "unat d \<le> unat x"
proof -
  from assms have lt: "unat d < unat (x + 1)" by (simp add: word_less_nat_alt)
  show ?thesis
  proof (cases "unat x + 1 < 2 ^ 64")
    case True
    then have "unat (x + 1) = unat x + 1" by (simp add: unat_plus_if')
    with lt show ?thesis by simp
  next
    case False
    have "unat x < 2 ^ 64" using unsigned_less [of x] by simp
    with False have "unat x + 1 = 2 ^ 64" by linarith
    then have "unat (x + 1) = 0" by (simp add: unat_plus_if')
    with lt show ?thesis by simp
  qed
qed

lemma selected_length_in_range:
  fixes d e mx :: uint
  assumes "e \<le> mx" and "d < mx - e + 1"
  shows "e \<le> d + e \<and> d + e \<le> mx"
proof -
  from assms(1) have s: "unat (mx - e) = unat mx - unat e" by (simp add: unat_sub)
  from assms(1) have le: "unat e \<le> unat mx" by (simp add: word_le_nat_alt)
  from less_plus_one_unat [OF assms(2)] s have "unat d \<le> unat mx - unat e" by simp
  with le have b: "unat d + unat e \<le> unat mx" by linarith
  have "unat mx < 2 ^ 64" using unsigned_less [of mx] by simp
  with b have "unat d + unat e < 2 ^ 64" by linarith
  then have "unat (d + e) = unat d + unat e" by (simp add: unat_plus_if')
  with b show ?thesis by (simp add: word_le_nat_alt)
qed

lemma g_getRandomLength_Value:
  assumes "mn \<le> mx" and "min_g (gen w) \<le> mx"
    and "random (gen w) (prov w) (mx - max mn (min_g (gen w)) + 1) = (Value d, s')"
  shows "g_getRandomLength mn mx w =
     (Inr (d + max mn (min_g (gen w))),
      w\<lparr>prov := s', calls := calls w @ [(mx - max mn (min_g (gen w)) + 1, Value d)]\<rparr>)"
proof -
  have m: "(if mn < min_g (gen w) then min_g (gen w) else mn) = max mn (min_g (gen w))"
    by (auto simp: max_def)
  from assms(1,2) have "\<not> (mx < mn \<or> mx < min_g (gen w))" by auto
  with assms(3) show ?thesis
    unfolding g_getRandomLength_def Let_def m by (simp add: Get_def)
qed

lemma g_getRandomLength_Inr:
  assumes "g_getRandomLength mn mx w = (Inr len, w1)" and "in_range (random (gen w))"
  shows "max mn (min_g (gen w)) \<le> len \<and> len \<le> mx \<and> min_g (gen w) \<le> len"
proof -
  let ?e = "max mn (min_g (gen w))"
  have m: "(if mn < min_g (gen w) then min_g (gen w) else mn) = ?e"
    by (auto simp: max_def)
  from assms(1) have c: "\<not> (mx < mn \<or> mx < min_g (gen w))"
    by (auto simp: g_getRandomLength_def split: if_splits)
  then have e: "?e \<le> mx" by (auto simp: max_def)
  from assms(1) c obtain d w' where G: "Get (random (gen w)) (mx - ?e + 1) w = (Inr d, w')"
    and l: "len = d + ?e"
    unfolding g_getRandomLength_def Let_def m by (auto split: prod.splits sum.splits)
  from Get_in_range [OF assms(2) G] have "d < mx - ?e + 1" .
  from selected_length_in_range [OF e this] l have "?e \<le> len \<and> len \<le> mx" by simp
  moreover have "min_g (gen w) \<le> ?e" by simp
  ultimately show ?thesis by auto
qed

lemma Generate_length:
  fixes w :: "('s, 'e) world"
  assumes B: "NewGenerator rand_Int (map option_of ds) = Inr (gen w)"
    and wf: "list_all (\<lambda>c. length (set_cs c) \<le> maxInt) (registered ds)"
    and r: "in_range (random (gen w))"
    and G: "Generate mn mx w = (Inr pw, w')"
  shows "\<exists>len w1. g_getRandomLength mn mx w = (Inr len, w1) \<and> length pw = unat len
     \<and> max mn (min_g (gen w)) \<le> len \<and> len \<le> mx"
proof -
  from Generate_Inr [OF G] obtain len w1 chars1 w2 chars w3 where
    L: "g_getRandomLength mn mx w = (Inr len, w1)"
    and M: "g_getRandomChars_minimums (charsets (gen w)) [] w1 = (Inr chars1, w2)"
    and F: "g_getRandomChars_fill len 0 chars1 w2 = (Inr chars, w3)"
    and S: "shuffle (random (gen w)) chars w3 = (None, pw, w')"
    and g2: "gen w2 = gen w"
    by blast
  from NewGenerator_built [OF B]
  have cs: "charsets (gen w) = registered ds"
    and mg: "min_g (gen w) = sum_list (map min_cs (registered ds))"
    and nm: "num (gen w) = of_nat (length (pool (registered ds)))"
    by auto
  from g_getRandomLength_Inr [OF L r]
  have rng: "max mn (min_g (gen w)) \<le> len \<and> len \<le> mx" and ge: "min_g (gen w) \<le> len" by auto
  let ?S = "sum_list (map (\<lambda>c. unat (min_cs c)) (charsets (gen w)))"
  from g_getRandomChars_minimums_result [OF M]
  have l1: "length chars1 = ?S" and b1: "charsets (gen w) \<noteq> [] \<longrightarrow> length chars1 \<le> maxInt"
    by auto
  have "?S \<le> maxInt"
  proof (cases "charsets (gen w) = []")
    case True
    then show ?thesis by simp
  next
    case False
    with b1 l1 show ?thesis by simp
  qed
  then have "?S < 2 ^ 64" by (simp add: maxInt_def)
  then have um: "unat (min_g (gen w)) = ?S"
    using unat_sum_list [of min_cs "registered ds"] mg cs by simp
  from list_all_maxInt [OF wf] cs g2
  have wf2: "\<forall>c \<in> set (charsets (gen w2)). length (set_cs c) < 2 ^ 64" by simp
  from r g2 have r2: "in_range (random (gen w2))" by simp
  from nm cs g2 have n2: "num (gen w2) = of_nat (length (pool (charsets (gen w2))))" by simp
  from g_getRandomChars_fill_pool [OF r2 wf2 n2 F] g2
  obtain ks :: "uint list" where "length ks = unat (len - min_g (gen w))"
    and "chars = chars1 @ map (\<lambda>k. pool (charsets (gen w)) ! unat k) ks"
    by auto
  then have "length chars = length chars1 + unat (len - min_g (gen w))" by simp
  also have "\<dots> = unat (min_g (gen w)) + (unat len - unat (min_g (gen w)))"
    using l1 um ge by (simp add: unat_sub)
  also have "\<dots> = unat len" using ge by (simp add: word_le_nat_alt)
  finally have "length chars = unat len" .
  moreover have "length pw = length chars"
    using shuffle_mset [of "random (gen w)" chars w3] S by (auto dest: mset_eq_length)
  ultimately show ?thesis using L rng by auto
qed

text \<open>
  C2. For a generator built from directives whose sets are Go slices, a provider that
  keeps its contract, and \<open>max \<ge> min\<close>, \<open>max \<ge> minTotal\<close>: when the provider answers the
  one call with bound \<open>max - max(min, minTotal) + 1\<close> with a number \<open>d\<close>, the length selector
  makes just that call and returns \<open>max(min, minTotal) + d\<close>, which lies between
  \<open>max(min, minTotal)\<close> and \<open>max\<close>; and a password \<^verbatim>\<open>Generate\<close> returns has exactly the selected
  length.
\<close>

theorem Generate_length_between_bounds:
  fixes w :: "('s, 'e) world"
  assumes "NewGenerator rand_Int (map option_of ds) = Inr (gen w)"
    and "list_all (\<lambda>c. length (set_cs c) \<le> maxInt) (registered ds)"
    and "in_range (random (gen w))"
    and "mn \<le> mx" and "min_g (gen w) \<le> mx"
  shows "(\<forall>d s'. random (gen w) (prov w) (mx - max mn (min_g (gen w)) + 1) = (Value d, s') \<longrightarrow>
            g_getRandomLength mn mx w =
              (Inr (max mn (min_g (gen w)) + d),
               w\<lparr>prov := s', calls := calls w @ [(mx - max mn (min_g (gen w)) + 1, Value d)]\<rparr>)
            \<and> max mn (min_g (gen w)) \<le> max mn (min_g (gen w)) + d
            \<and> max mn (min_g (gen w)) + d \<le> mx)
     \<and> (\<forall>pw w'. Generate mn mx w = (Inr pw, w') \<longrightarrow>
            (\<exists>len w1. g_getRandomLength mn mx w = (Inr len, w1) \<and> length pw = unat len
               \<and> max mn (min_g (gen w)) \<le> len \<and> len \<le> mx))"
proof -
  let ?e = "max mn (min_g (gen w))"
  have a: "g_getRandomLength mn mx w =
        (Inr (?e + d), w\<lparr>prov := s', calls := calls w @ [(mx - ?e + 1, Value d)]\<rparr>)
      \<and> ?e \<le> ?e + d \<and> ?e + d \<le> mx"
    if v: "random (gen w) (prov w) (mx - ?e + 1) = (Value d, s')" for d s'
  proof -
    from assms(3) v have "d < mx - ?e + 1" by (auto simp: in_range_def)
    moreover from assms(4,5) have "?e \<le> mx" by (auto simp: max_def)
    ultimately have "?e \<le> d + ?e \<and> d + ?e \<le> mx" by (rule selected_length_in_range [rotated])
    with g_getRandomLength_Value [OF assms(4,5) v] show ?thesis by (simp add: add.commute)
  qed
  from a Generate_length [OF assms(1,2,3)] show ?thesis by blast
qed

theorem Generate_length_between_bounds_witness:
  "g_getRandomLength 2 5 (counting_world 1) =
     (Inr 4, \<lparr>gen = demo_generator counting, prov = 2, calls = [(3, Value 1)]\<rparr>)
   \<and> fst (Generate 2 5 (counting_world 1)) = Inr [49, 97, 48, 97]
   \<and> length [49, 97, 48, 97 :: rune] = unat (4 :: uint)"
proof -
  have wf: "list_all (\<lambda>c. length (set_cs c) \<le> maxInt) (registered counting_directives)"
    by (simp add: counting_directives_def maxInt_def)
  have r: "in_range (random (gen (counting_world 1)))"
    by (simp add: counting_world_def demo_generator_def counting_in_range)
  have b: "(2 :: uint) \<le> 5" "min_g (gen (counting_world 1)) \<le> 5"
    by (simp_all add: counting_world_def demo_generator_def)
  have v: "random (gen (counting_world 1)) (prov (counting_world 1))
      (5 - max 2 (min_g (gen (counting_world 1))) + 1) = (Value 1, 2)"
    by (simp add: counting_world_def demo_generator_def counting_def)
  note T = Generate_length_between_bounds [OF counting_built wf r b]
  from T [THEN conjunct1, rule_format, OF v]
  have l: "g_getRandomLength 2 5 (counting_world 1) =
     (Inr 4, \<lparr>gen = demo_generator counting, prov = 2, calls = [(3, Value 1)]\<rparr>)"
    by (simp add: counting_world_def demo_generator_def)
  have g: "fst (Generate 2 5 (counting_world 1)) = Inr [49, 97, 48, 97]"
    by (simp add: run_simps counting_world_def counting_def)
  from l g show ?thesis by simp
qed

section \<open>An empty set with a positive minimum\<close>












end
